theory Spec2Isabelle
  imports Main "HOL-Library.Sublist"
begin

section \<open>The parsed HTML tree\<close>

text \<open>
  \<^verbatim>\<open>generateReport\<close> of \<^verbatim>\<open>src/main.go\<close> walks a tree of \<^verbatim>\<open>html.Node\<close> values
  (package \<^verbatim>\<open>golang.org/x/net/html\<close>) through selections of the \<^verbatim>\<open>goquery\<close> package.
  Both packages are libraries outside the repository; the few operations the program
  calls are modelled here by their documented behaviour. A node has a type, its
  \<^verbatim>\<open>Data\<close> (the tag name of an element, the content of a text node), its attributes
  in source order (key and value; the namespace is never read) and its children in
  sibling order (\<^verbatim>\<open>FirstChild\<close>, then \<^verbatim>\<open>NextSibling\<close>).
\<close>

datatype node_type =
  ErrorNode | TextNode | DocumentNode | ElementNode | CommentNode | DoctypeNode

datatype node =
  Node (ntype: node_type) (data: string) (attr: "(string \<times> string) list")
    (children: "node list")

text \<open>A goquery \<^verbatim>\<open>Selection\<close> is its slice \<^verbatim>\<open>Nodes\<close>.\<close>

type_synonym selection = "node list"

text \<open>
  Go's run-time panics. \<^verbatim>\<open>IndexOutOfRange i n\<close> is the panic of indexing a slice of
  length \<open>n\<close> at \<open>i\<close>; \<^verbatim>\<open>NilDereference\<close> is the panic of reading a field through a
  nil \<^verbatim>\<open>*html.Node\<close>. A panic unwinds through \<^verbatim>\<open>Each\<close> and ends the process.
\<close>

datatype panic = NilDereference | IndexOutOfRange int nat

subsection \<open>Selectors (package cascadia, as goquery compiles them)\<close>

definition isSpace :: "char \<Rightarrow> bool" where
  "isSpace c = (c \<in> set [CHR '' '', CHR 0x09, CHR 0x0D, CHR 0x0A, CHR 0x0C])"

text \<open>
  \<^verbatim>\<open>matchInclude val s\<close>: some whitespace-separated token of \<open>s\<close> equals \<open>val\<close>.
  The library's loop cuts \<open>s\<close> at the first whitespace character, compares the piece
  before it and goes on behind it.
\<close>

function matchInclude :: "string \<Rightarrow> string \<Rightarrow> bool" where
  "matchInclude val s =
     (if s = [] then False
      else (let tok = takeWhile (\<lambda>c. \<not> isSpace c) s;
                rest = dropWhile (\<lambda>c. \<not> isSpace c) s
            in if rest = [] then s = val
               else if tok = val then True
               else matchInclude val (tl rest)))"
  by pat_completeness auto
termination
proof (relation "measure (\<lambda>(val, s). length s)")
  show "wf (measure (\<lambda>(val, s). length s))" by simp
next
  fix val s :: string and x xa
  assume "s \<noteq> []" and "xa = dropWhile (\<lambda>c. \<not> isSpace c) s" and "xa \<noteq> []"
  then have "length (tl xa) < length xa" by simp
  moreover have "length xa \<le> length s"
    using \<open>xa = dropWhile (\<lambda>c. \<not> isSpace c) s\<close> by (simp add: length_dropWhile_le)
  ultimately show "((val, tl xa), (val, s)) \<in> measure (\<lambda>(val, s). length s)" by simp
qed

definition tagSelector :: "string \<Rightarrow> node \<Rightarrow> bool" where
  "tagSelector t n = (ntype n = ElementNode \<and> data n = t)"

definition classSelector :: "string \<Rightarrow> node \<Rightarrow> bool" where
  "classSelector c n =
     (ntype n = ElementNode \<and>
      list_ex (\<lambda>(k, v). k = ''class'' \<and> matchInclude c v) (attr n))"

text \<open>The compound selector \<^verbatim>\<open>tag.class\<close>, as in \<^verbatim>\<open>td.comment-body\<close>.\<close>

definition tagClassSelector :: "string \<Rightarrow> string \<Rightarrow> node \<Rightarrow> bool" where
  "tagClassSelector t c n = (tagSelector t n \<and> classSelector c n)"

subsection \<open>Selections (package goquery)\<close>

text \<open>\<^verbatim>\<open>Text\<close>: the text nodes below a node, concatenated in document order.\<close>

fun textOf :: "node \<Rightarrow> string" where
  "textOf (Node t d a cs) = (if t = TextNode then d else []) @ concat (map textOf cs)"

definition Text :: "selection \<Rightarrow> string" where
  "Text s = concat (map textOf s)"

text \<open>\<^verbatim>\<open>Attr\<close>: the first attribute of that key on the first node; absent on an empty
  selection.\<close>

definition Attr :: "string \<Rightarrow> selection \<Rightarrow> string option" where
  "Attr name s = (case s of [] \<Rightarrow> None | n # _ \<Rightarrow> map_of (attr n) name)"

text \<open>\<^verbatim>\<open>Children\<close>: the element children of every node of the selection.\<close>

definition Children :: "selection \<Rightarrow> selection" where
  "Children s = concat (map (\<lambda>n. filter (\<lambda>c. ntype c = ElementNode) (children n)) s)"

definition ChildrenFiltered :: "(node \<Rightarrow> bool) \<Rightarrow> selection \<Rightarrow> selection" where
  "ChildrenFiltered m s = filter m (Children s)"

text \<open>\<^verbatim>\<open>Is\<close>: some node of the selection matches.\<close>

definition Is :: "(node \<Rightarrow> bool) \<Rightarrow> selection \<Rightarrow> bool" where
  "Is m s = list_ex m s"

text \<open>\<^verbatim>\<open>Find\<close>: the matching proper descendants, in document order.\<close>

fun matchAll :: "(node \<Rightarrow> bool) \<Rightarrow> node \<Rightarrow> node list" where
  "matchAll m (Node t d a cs) =
     (if m (Node t d a cs) then [Node t d a cs] else []) @ concat (map (matchAll m) cs)"

definition Find :: "(node \<Rightarrow> bool) \<Rightarrow> selection \<Rightarrow> selection" where
  "Find m s =
     concat (map (\<lambda>n. concat (map (matchAll m)
                         (filter (\<lambda>c. ntype c = ElementNode) (children n)))) s)"

text \<open>
  \<^verbatim>\<open>Each\<close> calls the function on every node in order. The callbacks of the program
  change the variables they close over; here they take and return that state. A panic
  in a callback ends the loop.
\<close>

fun Each :: "('s \<Rightarrow> node \<Rightarrow> panic + 's) \<Rightarrow> 's \<Rightarrow> selection \<Rightarrow> panic + 's" where
  "Each f st [] = Inr st"
| "Each f st (n # ns) = (case f st n of Inl p \<Rightarrow> Inl p | Inr st' \<Rightarrow> Each f st' ns)"

text \<open>
  The loop \<^verbatim>\<open>for ; x.Type != html.TextNode; x = x.NextSibling { continue }\<close> started
  at \<^verbatim>\<open>FirstChild\<close>: the first text node among the children, and a nil dereference
  (\<open>None\<close> here) when the walk runs off the last sibling.
\<close>

fun firstTextNode :: "node list \<Rightarrow> node option" where
  "firstTextNode [] = None"
| "firstTextNode (x # xs) = (if ntype x \<noteq> TextNode then firstTextNode xs else Some x)"

section \<open>Regular expressions\<close>

text \<open>
  The four patterns of the program are literals and one alternation of literals.
  \<^verbatim>\<open>MatchString\<close> is unanchored: the expression matches at some position of the text.
\<close>

datatype regexp = Literal string | Alternate regexp regexp

fun matchPrefix :: "regexp \<Rightarrow> string \<Rightarrow> bool" where
  "matchPrefix (Literal l) s = (take (length l) s = l)"
| "matchPrefix (Alternate a b) s = (matchPrefix a s \<or> matchPrefix b s)"

fun MatchString :: "regexp \<Rightarrow> string \<Rightarrow> bool" where
  "MatchString re [] = matchPrefix re []"
| "MatchString re (c # cs) = (matchPrefix re (c # cs) \<or> MatchString re cs)"

definition regClosePR :: regexp where
  "regClosePR = Alternate (Literal ''merged pull request'') (Literal ''closed pull request'')"

definition regOpenPR :: regexp where
  "regOpenPR = Literal ''opened pull request''"

definition regOpenIssue :: regexp where
  "regOpenIssue = Literal ''opened issue''"

definition regCloseIssue :: regexp where
  "regCloseIssue = Literal ''closed issue''"

section \<open>The state of a run\<close>

text \<open>
  The four package-level counters and the three local variables of
  \<^verbatim>\<open>generateReport\<close> that its callbacks update, together with the messages given to
  \<^verbatim>\<open>log.Println\<close>. The counters only ever grow by one per list item from zero, so
  they stay far below the range of Go's \<^verbatim>\<open>int\<close> for every document that fits in
  memory; they are natural numbers here.
\<close>

record state =
  issueOpen :: nat
  issueClose :: nat
  prOpen :: nat
  prClose :: nat
  userDict :: "string \<rightharpoonup> string"
  headerContentDict :: "string \<rightharpoonup> string list"
  headers :: "string list"
  logged :: "string list"

definition initial :: state where
  "initial = \<lparr>issueOpen = 0, issueClose = 0, prOpen = 0, prClose = 0,
     userDict = Map.empty, headerContentDict = Map.empty, headers = [], logged = []\<rparr>"

text \<open>Reading a missing key of a Go map gives the zero value, here the nil slice.\<close>

definition contents :: "state \<Rightarrow> string \<Rightarrow> string list" where
  "contents st h = (case headerContentDict st h of None \<Rightarrow> [] | Some l \<Rightarrow> l)"

section \<open>\<^verbatim>\<open>count\<close> and \<^verbatim>\<open>isBot\<close>\<close>

definition count :: "string \<Rightarrow> state \<Rightarrow> state" where
  "count content st =
     (if MatchString regOpenPR content then st\<lparr>prOpen := prOpen st + 1\<rparr>
      else if MatchString regClosePR content then st\<lparr>prClose := prClose st + 1\<rparr>
      else if MatchString regOpenIssue content then st\<lparr>issueOpen := issueOpen st + 1\<rparr>
      else if MatchString regCloseIssue content then st\<lparr>issueClose := issueClose st + 1\<rparr>
      else st)"

definition isBot :: "string \<Rightarrow> bool" where
  "isBot name = (name = ''@dependabot'' \<or> name = ''@BeyondRobot'')"

section \<open>The traversal of \<^verbatim>\<open>generateReport\<close>\<close>

text \<open>The selections a list item is read through (lines 128 and 155).\<close>

definition userNodeOf :: "node \<Rightarrow> selection" where
  "userNodeOf liNode = ChildrenFiltered (tagClassSelector ''a'' ''user-mention'') [liNode]"

definition issueNodeOf :: "node \<Rightarrow> selection" where
  "issueNodeOf liNode = ChildrenFiltered (tagSelector ''a'') (Children [liNode])"

text \<open>\<^verbatim>\<open>fmt.Sprintf("[%s]%s[%s](%s)", ...)\<close> of line 172.\<close>

definition entryLine :: "string \<Rightarrow> string \<Rightarrow> string \<Rightarrow> string \<Rightarrow> string" where
  "entryLine user action title link =
     ''['' @ user @ '']'' @ action @ ''['' @ title @ ''](''  @ link @ '')''"

text \<open>
  Lines 141 to 149: a handle not yet in \<^verbatim>\<open>userDict\<close> is stored with the link of the
  user anchor; without a link the callback logs and returns (\<open>Inl\<close> of the state it
  leaves behind).
\<close>

definition checkUser :: "state \<Rightarrow> selection \<Rightarrow> state + state" where
  "checkUser st userNode =
     (case userDict st (Text userNode) of
        Some _ \<Rightarrow> Inr st
      | None \<Rightarrow>
          (case Attr ''href'' userNode of
             None \<Rightarrow>
               Inl (st\<lparr>logged := logged st @
                      [''get href from user failed, text: '' @ Text userNode]\<rparr>)
           | Some userLink \<Rightarrow>
               Inr (st\<lparr>userDict := (userDict st)(Text userNode \<mapsto> userLink)\<rparr>)))"

text \<open>
  Lines 170 to 173: the entry goes to the list of the last header;
  \<^verbatim>\<open>headers[len(headers)-1]\<close> panics on the empty slice.
\<close>

definition appendContent :: "state \<Rightarrow> string \<Rightarrow> panic + state" where
  "appendContent st entry =
     (if headers st = [] then Inl (IndexOutOfRange (- 1) 0)
      else Inr (st\<lparr>headerContentDict :=
                  (headerContentDict st)(last (headers st) \<mapsto>
                     contents st (last (headers st)) @ [entry])\<rparr>))"

text \<open>Lines 154 to 173, after the counters are updated.\<close>

definition processIssue :: "state \<Rightarrow> node \<Rightarrow> selection \<Rightarrow> node \<Rightarrow> panic + state" where
  "processIssue st liNode userNode userText =
     (let issueNode = issueNodeOf liNode in
      case issueNode of
        [] \<Rightarrow> Inl (IndexOutOfRange 0 0)
      | n0 # _ \<Rightarrow>
          (case firstTextNode (children n0) of
             None \<Rightarrow> Inl NilDereference
           | Some issueText \<Rightarrow>
               (case Attr ''href'' issueNode of
                  None \<Rightarrow>
                    Inr (st\<lparr>logged := logged st @
                           [''get href from issue failed, text: '' @ Text issueNode]\<rparr>)
                | Some issueLink \<Rightarrow>
                    appendContent st
                      (entryLine (Text userNode) (data userText) (data issueText) issueLink))))"

text \<open>
  The callback of the inner \<^verbatim>\<open>Each\<close> (lines 126 to 174), one list item. Every
  \<^verbatim>\<open>return\<close> of the callback is an \<open>Inr\<close> here, every panic an \<open>Inl\<close>.
\<close>

definition processItem :: "state \<Rightarrow> node \<Rightarrow> panic + state" where
  "processItem st liNode =
     (let userNode = userNodeOf liNode in
      if isBot (Text userNode) then Inr st
      else
        (case firstTextNode (children liNode) of
           None \<Rightarrow> Inl NilDereference
         | Some userText \<Rightarrow>
             (case checkUser st userNode of
                Inl st' \<Rightarrow> Inr st'
              | Inr st1 \<Rightarrow> processIssue (count (data userText) st1) liNode userNode userText)))"

text \<open>The callback of the outer \<^verbatim>\<open>Each\<close> (lines 109 to 176), one child of the cell.\<close>

definition processChild :: "state \<Rightarrow> node \<Rightarrow> panic + state" where
  "processChild st s =
     (if Is (tagSelector ''h2'') [s] then
        (let aNode = ChildrenFiltered (tagSelector ''a'') [s]
         in Inr (st\<lparr>headers := headers st @ [Text aNode],
                    headerContentDict := (headerContentDict st)(Text aNode \<mapsto> [])\<rparr>))
      else if Is (tagSelector ''ul'') [s] then
        Each processItem st (ChildrenFiltered (tagSelector ''li'') [s])
      else Inr st)"

text \<open>The children the outer loop visits (line 109), for the root node of the document.\<close>

definition reportChildren :: "node \<Rightarrow> selection" where
  "reportChildren doc = Children (Find (tagClassSelector ''td'' ''comment-body'') [doc])"

text \<open>Lines 93 to 176: the whole extraction, from fresh maps and zero counters.\<close>

definition extractReport :: "node \<Rightarrow> panic + state" where
  "extractReport doc = Each processChild initial (reportChildren doc)"

section \<open>Writing the report\<close>

text \<open>
  The writer is the list of strings given to it, one per \<^verbatim>\<open>fmt.Fprintf\<close> call; the
  bytes of the output are their concatenation.
\<close>

definition communityPrefix :: string where
  "communityPrefix = ''https://github.com/beyondstorage/''"

definition nl :: string where
  "nl = [CHR 0x0A]"

text \<open>The verb \<^verbatim>\<open>%d\<close> on a counter: its decimal digits.\<close>

function decimal :: "nat \<Rightarrow> string" where
  "decimal n =
     (if n < 10 then [''0123456789'' ! n]
      else decimal (n div 10) @ [''0123456789'' ! (n mod 10)])"
  by pat_completeness auto
termination
  by (relation "measure id") auto

definition weeklyStats :: "state \<Rightarrow> string" where
  "weeklyStats st =
     nl @ ''## Weekly Stats'' @ nl @ nl @
     ''| | Opened this week | Closed this week |'' @ nl @
     ''| ---- | ---- | ---- |'' @ nl @
     ''| Issues | '' @ decimal (issueOpen st) @ '' | '' @ decimal (issueClose st) @ '' |'' @ nl @
     ''| PR'' @ [CHR 0x27] @ ''s | '' @ decimal (prOpen st) @ '' | '' @ decimal (prClose st) @
       '' |'' @ nl"

definition headingLine :: "string \<Rightarrow> string" where
  "headingLine header = ''## ['' @ header @ ''](''  @ communityPrefix @ header @ '')'' @ nl"

definition contentLine :: "string \<Rightarrow> string" where
  "contentLine content = ''- '' @ content @ nl"

definition userLine :: "string \<Rightarrow> string \<Rightarrow> string" where
  "userLine user link = ''['' @ user @ '']: '' @ link @ nl"

text \<open>The loop of lines 200 to 203.\<close>

fun writeContents :: "string list \<Rightarrow> string list \<Rightarrow> string list" where
  "writeContents w [] = w"
| "writeContents w (content # cs) = writeContents (w @ [contentLine content]) cs"

text \<open>The loop of lines 192 to 205, with its \<^verbatim>\<open>continue\<close> on an empty list.\<close>

fun writeHeaders :: "state \<Rightarrow> string list \<Rightarrow> string list \<Rightarrow> string list" where
  "writeHeaders st w [] = w"
| "writeHeaders st w (header # hs) =
     (if length (contents st header) = 0 then writeHeaders st w hs
      else writeHeaders st
             (writeContents (w @ [headingLine header, nl]) (contents st header) @ [nl]) hs)"

text \<open>The loop of lines 210 to 212 over the pairs of \<^verbatim>\<open>userDict\<close>.\<close>

fun writeUsers :: "string list \<Rightarrow> (string \<times> string) list \<Rightarrow> string list" where
  "writeUsers w [] = w"
| "writeUsers w ((user, link) # kvs) = writeUsers (w @ [userLine user link]) kvs"

text \<open>
  Go leaves the order in which \<^verbatim>\<open>range\<close> visits a map unspecified. The order of one
  run is the list \<open>kvs\<close>: every key of the map once, with its value.
\<close>

definition rangeOver :: "(string \<rightharpoonup> string) \<Rightarrow> (string \<times> string) list \<Rightarrow> bool" where
  "rangeOver m kvs = (distinct (map fst kvs) \<and> map_of kvs = m)"

text \<open>Lines 178 to 212.\<close>

definition writeReport :: "state \<Rightarrow> (string \<times> string) list \<Rightarrow> string list" where
  "writeReport st kvs =
     writeUsers (writeHeaders st [weeklyStats st, nl] (headers st) @ [nl]) kvs"

text \<open>
  \<^verbatim>\<open>generateReport\<close> from the parsed document on (line 93 to the end); \<open>kvs\<close> is
  the order in which the last loop meets the users.
\<close>

definition generateReport :: "node \<Rightarrow> (string \<times> string) list \<Rightarrow> panic + string list" where
  "generateReport doc kvs =
     (case extractReport doc of Inl p \<Rightarrow> Inl p | Inr st \<Rightarrow> Inr (writeReport st kvs))"

section \<open>The classification table of the specification\<close>

text \<open>
  The specification words the four patterns as tests that the action text contains a
  phrase, tried from the top, the first match deciding. This is that table, written
  from the specification with plain containment; \<open>count\<close> above is the code.
\<close>

definition containsText :: "string \<Rightarrow> string \<Rightarrow> bool" where
  "containsText content phrase = sublist phrase content"

definition classifySpec :: "string \<Rightarrow> state \<Rightarrow> state" where
  "classifySpec content st =
     (if containsText content ''opened pull request'' then st\<lparr>prOpen := prOpen st + 1\<rparr>
      else if containsText content ''merged pull request'' \<or>
              containsText content ''closed pull request''
        then st\<lparr>prClose := prClose st + 1\<rparr>
      else if containsText content ''opened issue'' then st\<lparr>issueOpen := issueOpen st + 1\<rparr>
      else if containsText content ''closed issue'' then st\<lparr>issueClose := issueClose st + 1\<rparr>
      else st)"

section \<open>Example documents\<close>

text \<open>
  Builders for concrete trees, in the shape the HTML parser gives the report page: the
  comment cell sits in a table of the body, a heading holds one anchor, and a list item
  holds the user anchor, the action text and a span around the issue anchor.
\<close>

definition tx :: "string \<Rightarrow> node" where
  "tx s = Node TextNode s [] []"

definition elem :: "string \<Rightarrow> (string \<times> string) list \<Rightarrow> node list \<Rightarrow> node" where
  "elem t a cs = Node ElementNode t a cs"

definition page :: "node list \<Rightarrow> node" where
  "page cs = Node DocumentNode [] []
     [elem ''html'' [] [elem ''head'' [] [],
        elem ''body'' [] [elem ''table'' [] [elem ''tbody'' [] [elem ''tr'' []
          [elem ''td'' [(''class'', ''d-block comment-body markdown-body'')] cs]]]]]]"

definition heading :: "string \<Rightarrow> node" where
  "heading name = elem ''h2'' [] [elem ''a'' [(''href'', communityPrefix @ name)] [tx name]]"

definition item :: "string \<Rightarrow> string \<Rightarrow> string \<Rightarrow> string \<Rightarrow> string \<Rightarrow> node" where
  "item user ulink action title link = elem ''li'' []
     [elem ''a'' [(''class'', ''user-mention''), (''href'', ulink)] [tx user], tx action,
      elem ''span'' [] [elem ''a'' [(''href'', link)] [tx title]]]"

definition botItem :: node where
  "botItem = item ''@dependabot'' ''https://github.com/apps/dependabot''
     '' opened pull request '' ''Bump x''
     ''https://github.com/beyondstorage/go-storage/pull/7''"

definition aliceItem :: node where
  "aliceItem = item ''@alice'' ''https://github.com/alice'' '' opened issue ''
     ''Bug X'' ''http://x''"

definition botDoc :: node where
  "botDoc = page [heading ''go-storage'', elem ''ul'' [] [botItem, aliceItem]]"

section \<open>Predicates on states\<close>

text \<open>No bot handle is a key of \<^verbatim>\<open>userDict\<close>.\<close>

definition noBotUser :: "state \<Rightarrow> bool" where
  "noBotUser st = (\<forall>h. isBot h \<longrightarrow> userDict st h = None)"

text \<open>Every entry of every list was formatted for a handle that is a key of
  \<^verbatim>\<open>userDict\<close>.\<close>

definition entriesHaveUsers :: "state \<Rightarrow> bool" where
  "entriesHaveUsers st =
     (\<forall>h. \<forall>e \<in> set (contents st h).
        \<exists>u a t l. e = entryLine u a t l \<and> userDict st u \<noteq> None)"

section \<open>The shape of the output\<close>

text \<open>What one section with entries contributes to the output: its heading line, a
  blank line, one line per entry, a blank line.\<close>

definition sectionBlock :: "state \<Rightarrow> string \<Rightarrow> string list" where
  "sectionBlock st header = [headingLine header, nl] @ map contentLine (contents st header) @ [nl]"

text \<open>A report with one heading and nothing under it, and the state its extraction
  ends in.\<close>

definition emptyDoc :: node where
  "emptyDoc = page [heading ''go-storage'']"

definition emptyState :: state where
  "emptyState = initial\<lparr>headers := [''go-storage''],
     headerContentDict := [''go-storage'' \<mapsto> []]\<rparr>"

section \<open>Headings\<close>

text \<open>The name a heading registers: \<^verbatim>\<open>aNode.Text()\<close> of lines 112 to 119, the text of
  its anchor children, which is empty when it has none.\<close>

definition headerOf :: "node \<Rightarrow> string" where
  "headerOf s = Text (ChildrenFiltered (tagSelector ''a'') [s])"

text \<open>A report in which the heading \<^verbatim>\<open>go-storage\<close> comes twice, each time with a
  list under it; the state its extraction ends in, one order of its users, and the
  output written for them.\<close>

definition bobItem :: node where
  "bobItem = item ''@bob'' ''https://github.com/bob'' '' merged pull request ''
     ''Fix Y'' ''http://y''"

definition dupDoc :: node where
  "dupDoc = page [heading ''go-storage'', elem ''ul'' [] [aliceItem],
                  heading ''go-storage'', elem ''ul'' [] [bobItem]]"

definition dupState :: state where
  "dupState = initial\<lparr>issueOpen := 1, prClose := 1,
     headers := [''go-storage'', ''go-storage''],
     userDict := [''@alice'' \<mapsto> ''https://github.com/alice'', ''@bob'' \<mapsto> ''https://github.com/bob''],
     headerContentDict := [''go-storage'' \<mapsto> [''[@bob] merged pull request [Fix Y](http://y)'']]\<rparr>"

definition dupUsers :: "(string \<times> string) list" where
  "dupUsers = [(''@bob'', ''https://github.com/bob''), (''@alice'', ''https://github.com/alice'')]"

definition dupOutput :: "string list" where
  "dupOutput =
     [weeklyStats dupState, nl,
      ''## [go-storage](https://github.com/beyondstorage/go-storage)'' @ nl, nl,
      ''- [@bob] merged pull request [Fix Y](http://y)'' @ nl, nl,
      ''## [go-storage](https://github.com/beyondstorage/go-storage)'' @ nl, nl,
      ''- [@bob] merged pull request [Fix Y](http://y)'' @ nl, nl,
      nl,
      ''[@bob]: https://github.com/bob'' @ nl,
      ''[@alice]: https://github.com/alice'' @ nl]"

text \<open>A report whose heading holds plain text and no anchor, and the output written
  for it.\<close>

definition bareHeading :: node where
  "bareHeading = elem ''h2'' [] [tx ''go-storage'']"

definition bareDoc :: node where
  "bareDoc = page [bareHeading, elem ''ul'' [] [aliceItem]]"

definition bareOutput :: "string list" where
  "bareOutput =
     [weeklyStats (initial\<lparr>issueOpen := 1\<rparr>), nl,
      ''## [](https://github.com/beyondstorage/)'' @ nl, nl,
      ''- [@alice] opened issue [Bug X](http://x)'' @ nl, nl,
      nl,
      ''[@alice]: https://github.com/alice'' @ nl]"

section \<open>Counting\<close>

text \<open>The sum of the four counters, and the test that an action text matches one of
  the four patterns of \<open>count\<close>.\<close>

definition total :: "state \<Rightarrow> nat" where
  "total st = issueOpen st + issueClose st + prOpen st + prClose st"

definition matchesAny :: "string \<Rightarrow> bool" where
  "matchesAny content =
     (MatchString regOpenPR content \<or> MatchString regClosePR content \<or>
      MatchString regOpenIssue content \<or> MatchString regCloseIssue content)"

section \<open>Example list items\<close>

text \<open>
  Items of one user, \<^verbatim>\<open>@alice\<close>: one whose issue anchor has no link, one without a
  text node of its own, one whose span holds no anchor, and one whose issue anchor
  holds the title inside a \<^verbatim>\<open>code\<close> element only. \<open>listDoc\<close> puts an item into a
  report, alone in a list under one heading.
\<close>

definition userAnchor :: "string \<Rightarrow> string \<Rightarrow> node" where
  "userAnchor user ulink = elem ''a'' [(''class'', ''user-mention''), (''href'', ulink)] [tx user]"

definition noLinkItem :: node where
  "noLinkItem = elem ''li'' []
     [userAnchor ''@alice'' ''https://github.com/alice'', tx '' closed issue '',
      elem ''span'' [] [elem ''a'' [(''class'', ''issue-link'')] [tx ''Bug X'']]]"

definition noTextItem :: node where
  "noTextItem = elem ''li'' []
     [userAnchor ''@alice'' ''https://github.com/alice'',
      elem ''span'' [] [elem ''a'' [(''href'', ''http://x'')] [tx ''Bug X'']]]"

definition noAnchorItem :: node where
  "noAnchorItem = elem ''li'' []
     [userAnchor ''@alice'' ''https://github.com/alice'', tx '' opened issue '',
      elem ''span'' [] [tx ''Bug X'']]"

definition noTitleItem :: node where
  "noTitleItem = elem ''li'' []
     [userAnchor ''@alice'' ''https://github.com/alice'', tx '' opened issue '',
      elem ''span'' [] [elem ''a'' [(''href'', ''http://x'')] [elem ''code'' [] [tx ''Bug X'']]]]"

definition listDoc :: "node \<Rightarrow> node" where
  "listDoc li = page [heading ''go-storage'', elem ''ul'' [] [li]]"

section \<open>What can be read from a list item\<close>

text \<open>
  The first issue anchor of the item exists and has a text node among its children:
  lines 158 to 161 do not panic.
\<close>

definition hasIssueTitle :: "node \<Rightarrow> bool" where
  "hasIssueTitle li =
     (case issueNodeOf li of [] \<Rightarrow> False | n0 # _ \<Rightarrow> firstTextNode (children n0) \<noteq> None)"




section \<open>Well-formed reports\<close>

text \<open>
  A child the outer loop treats as a list (the heading test comes first), and the
  list items the traversal visits, in order.
\<close>

definition isList :: "node \<Rightarrow> bool" where
  "isList s = (\<not> Is (tagSelector ''h2'') [s] \<and> Is (tagSelector ''ul'') [s])"

definition itemsOf :: "node list \<Rightarrow> node list" where
  "itemsOf cs =
     concat (map (\<lambda>s. ChildrenFiltered (tagSelector ''li'') [s]) (filter isList cs))"

text \<open>A list item that is not a bot's and whose action text, the first text node
  among its children, matches one of the four patterns.\<close>

definition counted :: "node \<Rightarrow> bool" where
  "counted li =
     (\<not> isBot (Text (userNodeOf li)) \<and>
      (case firstTextNode (children li) of None \<Rightarrow> False | Some t \<Rightarrow> matchesAny (data t)))"

text \<open>
  A well-formed report: every list item that is not a bot's has an action text, a
  user anchor with a link and an issue anchor with a title, and stands in a list that
  comes after some heading. The issue anchor may lack its link.
\<close>

definition wellFormedItem :: "node \<Rightarrow> bool" where
  "wellFormedItem li =
     (firstTextNode (children li) \<noteq> None \<and> Attr ''href'' (userNodeOf li) \<noteq> None \<and>
      hasIssueTitle li)"

fun wellFormedChildren :: "bool \<Rightarrow> node list \<Rightarrow> bool" where
  "wellFormedChildren seen [] = True"
| "wellFormedChildren seen (s # ss) =
     (if Is (tagSelector ''h2'') [s] then wellFormedChildren True ss
      else if Is (tagSelector ''ul'') [s] then
        list_all (\<lambda>li. isBot (Text (userNodeOf li)) \<or> (seen \<and> wellFormedItem li))
          (ChildrenFiltered (tagSelector ''li'') [s]) \<and>
        wellFormedChildren seen ss
      else wellFormedChildren seen ss)"

definition wellFormed :: "node \<Rightarrow> bool" where
  "wellFormed doc = wellFormedChildren False (reportChildren doc)"

text \<open>A report with two headings and five list items: a bot's, three whose action
  text matches a pattern (one of them without an issue link), and a comment.\<close>

definition carolItem :: node where
  "carolItem = item ''@carol'' ''https://github.com/carol'' '' commented on ''
     ''Bug X'' ''http://x''"

definition mixedDoc :: node where
  "mixedDoc = page [heading ''go-storage'',
     elem ''ul'' [] [botItem, aliceItem, noLinkItem, carolItem],
     elem ''p'' [] [tx ''and''],
     heading ''go-service-fs'', elem ''ul'' [] [bobItem]]"

section \<open>Matching is containment\<close>

lemma matchPrefix_Literal: "matchPrefix (Literal l) s = prefix l s"
  by (auto simp: prefix_def take_Suc_conv_app_nth) (metis append_eq_conv_conj)

lemma MatchString_Literal: "MatchString (Literal l) s = sublist l s"
proof (induction s)
  case Nil
  show ?case by auto
next
  case (Cons c cs)
  then show ?case
    by (simp only: MatchString.simps matchPrefix_Literal sublist_Cons_right)
qed

lemma MatchString_Alternate:
  "MatchString (Alternate a b) s = (MatchString a s \<or> MatchString b s)"
  by (induction s) auto

lemma MatchString_regs:
  "MatchString regOpenPR s = containsText s ''opened pull request''"
  "MatchString regClosePR s =
     (containsText s ''merged pull request'' \<or> containsText s ''closed pull request'')"
  "MatchString regOpenIssue s = containsText s ''opened issue''"
  "MatchString regCloseIssue s = containsText s ''closed issue''"
  by (simp_all only: regOpenPR_def regClosePR_def regOpenIssue_def regCloseIssue_def
      MatchString_Alternate MatchString_Literal containsText_def)

section \<open>Classification\<close>

text \<open>
  C5. For every action text and every state of the counters, \<open>count\<close> does what the
  ordered table of the specification does: it tests for "opened pull request", then
  for "merged pull request" or "closed pull request", then for "opened issue", then for
  "closed issue"; the first phrase the text contains decides which one counter grows
  by one, and no counter changes when the text contains none. The text
  "merged pull request" adds one to \<open>prClose\<close> and leaves \<open>prOpen\<close> as it was, and a
  text holding two phrases is counted for the phrase tested first.
\<close>

theorem count_first_match_wins:
  "count content st = classifySpec content st \<and>
   count ''merged pull request'' st = st\<lparr>prClose := prClose st + 1\<rparr> \<and>
   prOpen (count ''merged pull request'' st) = prOpen st \<and>
   count ''closed issue, opened pull request'' st = st\<lparr>prOpen := prOpen st + 1\<rparr>"
proof -
  have a: "count content st = classifySpec content st"
    by (simp only: count_def classifySpec_def MatchString_regs)
  have b: "count ''merged pull request'' st = st\<lparr>prClose := prClose st + 1\<rparr>"
    by (simp add: count_def regOpenPR_def regClosePR_def)
  have c: "count ''closed issue, opened pull request'' st = st\<lparr>prOpen := prOpen st + 1\<rparr>"
    by (simp add: count_def regOpenPR_def)
  from a b c show ?thesis by simp
qed

section \<open>Loops over selections\<close>


lemma Each_invariant:
  assumes step: "\<And>s n s'. P s \<Longrightarrow> f s n = Inr s' \<Longrightarrow> P s'"
    and "P st" and "Each f st ns = Inr st'"
  shows "P st'"
  using assms(2,3)
proof (induction ns arbitrary: st)
  case Nil
  then show ?case by simp
next
  case (Cons n ns)
  then show ?case by (auto split: sum.splits dest: step)
qed

lemma Each_filter_skipped:
  assumes "\<And>s n. n \<in> set ns \<Longrightarrow> \<not> keep n \<Longrightarrow> f s n = Inr s"
  shows "Each f st ns = Each f st (filter keep ns)"
  using assms
proof (induction ns arbitrary: st)
  case Nil
  show ?case by simp
next
  case (Cons n ns)
  then show ?case by (cases "keep n") (auto split: sum.splits)
qed

lemma processItem_bot: "isBot (Text (userNodeOf li)) \<Longrightarrow> processItem st li = Inr st"
  by (simp add: processItem_def)

lemma userDict_count [simp]: "userDict (count c st) = userDict st"
  by (simp add: count_def)
lemma headers_count [simp]: "headers (count c st) = headers st"
  by (simp add: count_def)
lemma headerContentDict_count [simp]: "headerContentDict (count c st) = headerContentDict st"
  by (simp add: count_def)
lemma logged_count [simp]: "logged (count c st) = logged st"
  by (simp add: count_def)
lemma contents_count [simp]: "contents (count c st) = contents st"
  by (simp add: contents_def fun_eq_iff)

lemma processIssue_userDict:
  "processIssue st li un ut = Inr st' \<Longrightarrow> userDict st' = userDict st"
  by (auto simp: processIssue_def appendContent_def Let_def
      split: list.splits option.splits if_splits)

lemma processIssue_headers:
  "processIssue st li un ut = Inr st' \<Longrightarrow> headers st' = headers st"
  by (auto simp: processIssue_def appendContent_def Let_def
      split: list.splits option.splits if_splits)

lemma checkUser_userDict:
  "checkUser st un = Inr st1 \<Longrightarrow>
     userDict st1 = userDict st \<or>
     (\<exists>l. Attr ''href'' un = Some l \<and> userDict st (Text un) = None \<and> userDict st1 = (userDict st)(Text un \<mapsto> l))"
  by (auto simp: checkUser_def split: option.splits)

lemma checkUser_Inl_userDict:
  "checkUser st un = Inl st1 \<Longrightarrow> userDict st1 = userDict st"
  by (auto simp: checkUser_def split: option.splits)


lemma processItem_other:
  "\<not> isBot (Text (userNodeOf li)) \<Longrightarrow>
   processItem st li =
     (case firstTextNode (children li) of
        None \<Rightarrow> Inl NilDereference
      | Some userText \<Rightarrow>
          (case checkUser st (userNodeOf li) of
             Inl st' \<Rightarrow> Inr st'
           | Inr st1 \<Rightarrow>
               processIssue (count (data userText) st1) li (userNodeOf li) userText))"
  by (simp add: processItem_def Let_def)

lemma processItem_noBotUser:
  assumes "noBotUser st" and "processItem st li = Inr st'"
  shows "noBotUser st'"
proof (cases "isBot (Text (userNodeOf li))")
  case True
  with assms show ?thesis by (simp add: processItem_bot)
next
  case False
  note step = assms(2)[unfolded processItem_other[OF False]]
  from step obtain ut where ut: "firstTextNode (children li) = Some ut"
    by (auto split: option.splits)
  show ?thesis
  proof (cases "checkUser st (userNodeOf li)")
    case (Inl s1)
    with step ut have "st' = s1" by simp
    with Inl assms(1) show ?thesis
      by (auto simp: noBotUser_def dest: checkUser_Inl_userDict)
  next
    case (Inr s1)
    with step ut have "processIssue (count (data ut) s1) li (userNodeOf li) ut = Inr st'"
      by simp
    then have "userDict st' = userDict s1"
      by (auto dest: processIssue_userDict)
    with checkUser_userDict[OF Inr] assms(1) False show ?thesis
      by (auto simp: noBotUser_def)
  qed
qed

lemma processChild_noBotUser:
  assumes inv: "noBotUser st" and step: "processChild st s = Inr st'"
  shows "noBotUser st'"
proof (cases "Is (tagSelector ''h2'') [s]")
  case True
  with step inv show ?thesis
    by (auto simp: processChild_def Let_def noBotUser_def)
next
  case False
  show ?thesis
  proof (cases "Is (tagSelector ''ul'') [s]")
    case True
    with False step
    have "Each processItem st (ChildrenFiltered (tagSelector ''li'') [s]) = Inr st'"
      by (simp add: processChild_def)
    with inv show ?thesis
      using Each_invariant[where P = noBotUser and f = processItem] processItem_noBotUser
      by blast
  next
    case notul: False
    with False step inv show ?thesis by (simp add: processChild_def)
  qed
qed

section \<open>Evaluating the example documents\<close>

lemmas example_defs = page_def elem_def tx_def heading_def item_def botItem_def aliceItem_def botDoc_def
lemmas dom_defs = Text_def Attr_def Children_def ChildrenFiltered_def Is_def Find_def
  tagSelector_def classSelector_def tagClassSelector_def userNodeOf_def issueNodeOf_def isSpace_def
lemmas run_defs = extractReport_def reportChildren_def processChild_def processItem_def processIssue_def
  checkUser_def appendContent_def count_def isBot_def contents_def initial_def entryLine_def
  regOpenPR_def regClosePR_def regOpenIssue_def regCloseIssue_def

lemma extractReport_botDoc:
  "extractReport botDoc = Inr (initial\<lparr>headers := [''go-storage''], issueOpen := 1,
     userDict := [''@alice'' \<mapsto> ''https://github.com/alice''],
     headerContentDict := [''go-storage'' \<mapsto> [''[@alice] opened issue [Bug X](http://x)'']]\<rparr>)"
  by (simp add: run_defs dom_defs example_defs Let_def)

section \<open>Bot items\<close>

text \<open>
  C6. A list item whose user-mention text is exactly \<^verbatim>\<open>@dependabot\<close> or
  \<^verbatim>\<open>@BeyondRobot\<close> is skipped entirely: the callback returns the state it was given
  (counters, \<^verbatim>\<open>userDict\<close>, entry lists, all unchanged); a list of items is processed
  exactly as the same list without its bot items; and after any run that completes, no
  bot handle is a key of \<^verbatim>\<open>userDict\<close>.
\<close>

theorem bot_items_are_skipped:
  "(isBot (Text (userNodeOf li)) \<longrightarrow> processItem st li = Inr st) \<and>
   Each processItem st items =
     Each processItem st (filter (\<lambda>li. \<not> isBot (Text (userNodeOf li))) items) \<and>
   (extractReport doc = Inr st' \<longrightarrow> isBot h \<longrightarrow> userDict st' h = None)"
proof (intro conjI impI)
  assume "isBot (Text (userNodeOf li))"
  then show "processItem st li = Inr st" by (rule processItem_bot)
next
  show "Each processItem st items =
     Each processItem st (filter (\<lambda>li. \<not> isBot (Text (userNodeOf li))) items)"
    by (rule Each_filter_skipped) (simp add: processItem_bot)
next
  assume run: "extractReport doc = Inr st'" and bot: "isBot h"
  have "noBotUser initial" by (simp add: noBotUser_def initial_def)
  with run have "noBotUser st'"
    unfolding extractReport_def
    using Each_invariant[where P = noBotUser and f = processChild] processChild_noBotUser
    by blast
  with bot show "userDict st' h = None" by (simp add: noBotUser_def)
qed

theorem bot_items_are_skipped_witness:
  "isBot (Text (userNodeOf botItem)) \<and> processItem initial botItem = Inr initial \<and>
   Each processItem initial [botItem, aliceItem] = Each processItem initial [aliceItem] \<and>
   (case extractReport botDoc of Inl p \<Rightarrow> False
    | Inr s \<Rightarrow> userDict s ''@dependabot'' = None \<and>
        userDict s ''@alice'' = Some ''https://github.com/alice'')"
proof -
  have t: "Text (userNodeOf botItem) = ''@dependabot''" "Text (userNodeOf aliceItem) = ''@alice''"
    by (simp_all add: dom_defs example_defs)
  have b: "isBot (Text (userNodeOf botItem))" "\<not> isBot (Text (userNodeOf aliceItem))"
    by (simp_all add: t isBot_def)
  have d: "isBot ''@dependabot''" by (simp add: isBot_def)
  show ?thesis
    using bot_items_are_skipped[of botItem initial "[botItem, aliceItem]" botDoc _ "''@dependabot''",
        unfolded extractReport_botDoc] b d
    by (simp add: extractReport_botDoc)
qed

section \<open>The writer\<close>

lemma writeContents_eq: "writeContents w cs = w @ map contentLine cs"
  by (induction cs arbitrary: w) auto

lemma writeUsers_eq: "writeUsers w kvs = w @ map (\<lambda>(user, link). userLine user link) kvs"
  by (induction kvs arbitrary: w) auto

lemma writeHeaders_eq:
  "writeHeaders st w hs =
     w @ concat (map (sectionBlock st) (filter (\<lambda>h. contents st h \<noteq> []) hs))"
  by (induction hs arbitrary: w) (auto simp: writeContents_eq sectionBlock_def)

lemma writeReport_eq:
  "writeReport st kvs =
     [weeklyStats st, nl] @
     concat (map (sectionBlock st) (filter (\<lambda>h. contents st h \<noteq> []) (headers st))) @
     [nl] @ map (\<lambda>(user, link). userLine user link) kvs"
  by (simp add: writeReport_def writeUsers_eq writeHeaders_eq)

lemma headingLine_inj: "headingLine h = headingLine h' \<Longrightarrow> h = h'"
proof -
  assume eq: "headingLine h = headingLine h'"
  then have "length (headingLine h) = length (headingLine h')" by simp
  then have "length h = length h'" by (simp add: headingLine_def)
  with eq show "h = h'" by (simp add: headingLine_def)
qed

lemma headingLine_neq:
  "headingLine h \<noteq> contentLine e" "headingLine h \<noteq> userLine u l"
  "headingLine h \<noteq> weeklyStats st" "headingLine h \<noteq> nl"
  by (simp_all add: headingLine_def contentLine_def userLine_def weeklyStats_def nl_def)

lemma set_writeReport:
  "set (writeReport st kvs) =
     {weeklyStats st, nl} \<union>
     (\<Union>h \<in> {h \<in> set (headers st). contents st h \<noteq> []}.
        {headingLine h} \<union> contentLine ` set (contents st h)) \<union>
     (\<lambda>(user, link). userLine user link) ` set kvs"
  by (auto simp: writeReport_eq sectionBlock_def)

lemma extractReport_emptyDoc: "extractReport emptyDoc = Inr emptyState"
  by (simp add: emptyDoc_def emptyState_def run_defs dom_defs example_defs Let_def)

text \<open>
  C8. For every state the extraction can hand over and every order of the users, the
  output is the statistics block and a blank line, then the blocks of exactly those
  headers whose entry list is not empty, in the order of \<^verbatim>\<open>headers\<close>, then a blank line
  and the user lines. A header whose entry list is empty has no heading line anywhere
  in the output, also when it is the only header.
\<close>

theorem empty_sections_not_written:
  "writeReport st kvs =
     [weeklyStats st, nl] @
     concat (map (sectionBlock st) (filter (\<lambda>h. contents st h \<noteq> []) (headers st))) @
     [nl] @ map (\<lambda>(user, link). userLine user link) kvs \<and>
   (contents st h = [] \<longrightarrow> headingLine h \<notin> set (writeReport st kvs))"
proof (intro conjI impI)
  show "writeReport st kvs =
     [weeklyStats st, nl] @
     concat (map (sectionBlock st) (filter (\<lambda>h. contents st h \<noteq> []) (headers st))) @
     [nl] @ map (\<lambda>(user, link). userLine user link) kvs"
    by (rule writeReport_eq)
next
  assume e: "contents st h = []"
  show "headingLine h \<notin> set (writeReport st kvs)"
  proof
    assume "headingLine h \<in> set (writeReport st kvs)"
    then consider "headingLine h = weeklyStats st" | "headingLine h = nl"
      | h' where "contents st h' \<noteq> []" "headingLine h = headingLine h'"
      | h' c where "headingLine h = contentLine c"
      | u l where "headingLine h = userLine u l"
      unfolding set_writeReport by auto
    then show False
    proof cases
      case 3
      then have "h = h'" by (auto dest: headingLine_inj)
      with 3 e show False by simp
    qed (simp_all add: headingLine_neq)
  qed
qed

theorem empty_sections_not_written_witness:
  "extractReport emptyDoc = Inr emptyState \<and> contents emptyState ''go-storage'' = [] \<and>
   writeReport emptyState [] = [weeklyStats emptyState, nl, nl] \<and>
   headingLine ''go-storage'' \<notin> set (writeReport emptyState [])"
proof -
  have c: "contents emptyState ''go-storage'' = []"
    by (simp add: emptyState_def contents_def)
  have h: "headers emptyState = [''go-storage'']"
    by (simp add: emptyState_def)
  from empty_sections_not_written[of emptyState "[]" "''go-storage''"] c h
  show ?thesis by (simp add: extractReport_emptyDoc headingLine_neq)
qed

section \<open>Headings and the list of headers\<close>

lemma processChild_h2:
  "Is (tagSelector ''h2'') [s] \<Longrightarrow>
   processChild st s =
     Inr (st\<lparr>headers := headers st @ [headerOf s],
             headerContentDict := (headerContentDict st)(headerOf s \<mapsto> [])\<rparr>)"
  by (simp add: processChild_def headerOf_def Let_def)

lemma processChild_ul:
  "\<not> Is (tagSelector ''h2'') [s] \<Longrightarrow> Is (tagSelector ''ul'') [s] \<Longrightarrow>
   processChild st s = Each processItem st (ChildrenFiltered (tagSelector ''li'') [s])"
  by (simp add: processChild_def)

lemma processChild_other:
  "\<not> Is (tagSelector ''h2'') [s] \<Longrightarrow> \<not> Is (tagSelector ''ul'') [s] \<Longrightarrow>
   processChild st s = Inr st"
  by (simp add: processChild_def)

lemma checkUser_headers:
  "checkUser st un = Inr st1 \<Longrightarrow> headers st1 = headers st"
  "checkUser st un = Inl st2 \<Longrightarrow> headers st2 = headers st"
  by (auto simp: checkUser_def split: option.splits)

lemma processItem_headers:
  assumes "processItem st li = Inr st'"
  shows "headers st' = headers st"
proof (cases "isBot (Text (userNodeOf li))")
  case True
  with assms show ?thesis by (simp add: processItem_bot)
next
  case False
  note step = assms[unfolded processItem_other[OF False]]
  then show ?thesis
    by (auto split: option.splits sum.splits
        dest!: processIssue_headers checkUser_headers)
qed

lemma Each_processItem_headers:
  assumes "Each processItem st items = Inr st'"
  shows "headers st' = headers st"
proof -
  have "headers st = headers st" by simp
  with assms show ?thesis
    using Each_invariant[where P = "\<lambda>s. headers s = headers st" and f = processItem]
      processItem_headers
    by metis
qed

lemma processChild_headers:
  assumes "processChild st s = Inr st'"
  shows "headers st' =
     headers st @ (if Is (tagSelector ''h2'') [s] then [headerOf s] else [])"
proof (cases "Is (tagSelector ''h2'') [s]")
  case True
  with assms show ?thesis by (auto simp: processChild_h2)
next
  case False
  with assms show ?thesis
    by (cases "Is (tagSelector ''ul'') [s]")
       (auto simp: processChild_ul processChild_other dest: Each_processItem_headers)
qed

lemma Each_processChild_headers:
  "Each processChild st cs = Inr st' \<Longrightarrow>
   headers st' = headers st @ map headerOf (filter (\<lambda>s. Is (tagSelector ''h2'') [s]) cs)"
proof (induction cs arbitrary: st)
  case Nil
  then show ?case by simp
next
  case (Cons c cs)
  from Cons.prems obtain s1 where s1: "processChild st c = Inr s1"
    and rest: "Each processChild s1 cs = Inr st'"
    by (auto split: sum.splits)
  from Cons.IH[OF rest] processChild_headers[OF s1] show ?case by simp
qed

lemma neq_headingLine:
  "contentLine e \<noteq> headingLine h" "userLine u l \<noteq> headingLine h"
  "weeklyStats st \<noteq> headingLine h" "nl \<noteq> headingLine h"
  by (simp_all add: headingLine_def contentLine_def userLine_def weeklyStats_def nl_def)

lemma count_list_contentLines: "count_list (map contentLine cs) (headingLine h) = 0"
  by (induction cs) (simp_all add: neq_headingLine)

lemma count_list_userLines:
  "count_list (map (\<lambda>(user, link). userLine user link) kvs) (headingLine h) = 0"
  by (induction kvs) (auto simp: neq_headingLine)

lemma count_list_sectionBlock:
  "count_list (sectionBlock st h') (headingLine h) = (if h' = h then 1 else 0)"
  using headingLine_inj[of h' h]
  by (auto simp: sectionBlock_def count_list_contentLines neq_headingLine)

lemma count_list_sections:
  "count_list (concat (map (sectionBlock st) (filter (\<lambda>h. contents st h \<noteq> []) hs)))
     (headingLine h) = (if contents st h = [] then 0 else count_list hs h)"
  by (induction hs) (auto simp: count_list_sectionBlock)

lemma count_list_writeReport:
  "count_list (writeReport st kvs) (headingLine h) =
     (if contents st h = [] then 0 else count_list (headers st) h)"
  by (simp add: writeReport_eq count_list_sections count_list_userLines neq_headingLine)

lemma extractReport_dupDoc: "extractReport dupDoc = Inr dupState"
  by (simp add: dupDoc_def dupState_def bobItem_def run_defs dom_defs example_defs Let_def)

lemma writeReport_dupState: "writeReport dupState dupUsers = dupOutput"
  by (simp add: writeReport_eq sectionBlock_def dupUsers_def dupOutput_def contents_def
      headingLine_def contentLine_def userLine_def communityPrefix_def dupState_def)

lemma extractReport_bareDoc:
  "extractReport bareDoc =
     Inr (initial\<lparr>issueOpen := 1, headers := [''''],
            userDict := [''@alice'' \<mapsto> ''https://github.com/alice''],
            headerContentDict := ['''' \<mapsto> [''[@alice] opened issue [Bug X](http://x)'']]\<rparr>)"
  by (simp add: bareDoc_def bareHeading_def run_defs dom_defs example_defs Let_def)

text \<open>
  C1, as the specification states it, fails: a name is appended to \<^verbatim>\<open>headers\<close> at every
  heading, also when it is there already. In the report \<open>dupDoc\<close> the heading
  \<^verbatim>\<open>go-storage\<close> comes twice; \<^verbatim>\<open>headers\<close> then holds the name twice, and the output has
  its heading line twice, each time over the entries collected after the second
  heading.
\<close>

theorem repeated_heading_counterexample:
  "extractReport dupDoc = Inr dupState \<and>
   headers dupState = [''go-storage'', ''go-storage''] \<and>
   generateReport dupDoc dupUsers = Inr dupOutput \<and>
   count_list dupOutput (headingLine ''go-storage'') = 2"
proof -
  have "count_list dupOutput (headingLine ''go-storage'') = 2"
    by (simp add: dupOutput_def headingLine_def communityPrefix_def nl_def weeklyStats_def)
  then show ?thesis
    by (simp add: generateReport_def extractReport_dupDoc writeReport_dupState)
       (simp add: dupState_def)
qed

text \<open>
  C1, amended. Every heading appends its name to \<^verbatim>\<open>headers\<close> and sets the entry list of
  that name to the empty list, whatever was registered before. After a run that
  completes, \<^verbatim>\<open>headers\<close> is the list of the names of the heading children in document
  order, repetitions included, and the output has one heading line of a name for each
  occurrence of the name in \<^verbatim>\<open>headers\<close> when the entry list of the name is not empty,
  and none when it is empty.
\<close>

theorem repeated_heading_appended:
  "(Is (tagSelector ''h2'') [s] \<longrightarrow>
      processChild st0 s =
        Inr (st0\<lparr>headers := headers st0 @ [headerOf s],
                 headerContentDict := (headerContentDict st0)(headerOf s \<mapsto> [])\<rparr>)) \<and>
   (extractReport doc = Inr st \<longrightarrow>
      headers st =
        map headerOf (filter (\<lambda>s. Is (tagSelector ''h2'') [s]) (reportChildren doc)) \<and>
      count_list (writeReport st kvs) (headingLine h) =
        (if contents st h = [] then 0 else count_list (headers st) h))"
  using Each_processChild_headers[of initial "reportChildren doc" st]
  by (auto simp: processChild_h2 count_list_writeReport extractReport_def initial_def)

theorem repeated_heading_appended_witness:
  "Is (tagSelector ''h2'') [heading ''go-storage''] \<and>
   processChild (initial\<lparr>headers := [''go-storage'']\<rparr>) (heading ''go-storage'') =
     Inr (initial\<lparr>headers := [''go-storage'', ''go-storage''],
            headerContentDict := [''go-storage'' \<mapsto> []]\<rparr>) \<and>
   extractReport dupDoc = Inr dupState \<and>
   headers dupState = [''go-storage'', ''go-storage''] \<and>
   count_list (writeReport dupState dupUsers) (headingLine ''go-storage'') = 2"
proof -
  have h2: "Is (tagSelector ''h2'') [heading ''go-storage'']"
    by (simp add: dom_defs example_defs)
  have name: "headerOf (heading ''go-storage'') = ''go-storage''"
    by (simp add: headerOf_def dom_defs example_defs)
  have c: "contents dupState ''go-storage'' \<noteq> []"
    by (simp add: contents_def dupState_def)
  have hs: "headers dupState = [''go-storage'', ''go-storage'']"
    by (simp add: dupState_def)
  from repeated_heading_appended[of "heading ''go-storage''" "initial\<lparr>headers := [''go-storage'']\<rparr>"
      dupDoc dupState dupUsers "''go-storage''"] h2 name c hs extractReport_dupDoc
  show ?thesis by (simp add: initial_def)
qed

text \<open>
  C2, as the specification states it, fails: no path of the heading branch ends the
  run. The report \<open>bareDoc\<close> has a heading without an anchor; the run completes, the
  list after the heading is processed, and its entry is written under a heading line
  with the empty name.
\<close>

theorem heading_without_anchor_counterexample:
  "generateReport bareDoc [(''@alice'', ''https://github.com/alice'')] = Inr bareOutput"
  by (simp add: generateReport_def extractReport_bareDoc writeReport_eq sectionBlock_def
      bareOutput_def contents_def headingLine_def contentLine_def userLine_def
      communityPrefix_def weeklyStats_def initial_def)

text \<open>
  C2, amended. A heading child without an anchor child does not end the run: the
  text of the empty selection is the empty string, so the callback appends the empty
  name to \<^verbatim>\<open>headers\<close>, gives it the empty entry list, and the loop goes on with the
  children after the heading.
\<close>

theorem heading_without_anchor_registers_empty_name:
  assumes "Is (tagSelector ''h2'') [s]" and "ChildrenFiltered (tagSelector ''a'') [s] = []"
  shows "processChild st s =
           Inr (st\<lparr>headers := headers st @ [''''],
                   headerContentDict := (headerContentDict st)('''' \<mapsto> [])\<rparr>) \<and>
         Each processChild st (s # rest) =
           Each processChild
             (st\<lparr>headers := headers st @ [''''],
                 headerContentDict := (headerContentDict st)('''' \<mapsto> [])\<rparr>) rest"
  using assms by (simp add: processChild_def Text_def Let_def)

theorem heading_without_anchor_registers_empty_name_witness:
  "Is (tagSelector ''h2'') [bareHeading] \<and>
   ChildrenFiltered (tagSelector ''a'') [bareHeading] = [] \<and>
   processChild initial bareHeading =
     Inr (initial\<lparr>headers := [''''], headerContentDict := ['''' \<mapsto> []]\<rparr>) \<and>
   Each processChild initial [bareHeading, elem ''ul'' [] [aliceItem]] =
     Each processChild (initial\<lparr>headers := [''''], headerContentDict := ['''' \<mapsto> []]\<rparr>)
       [elem ''ul'' [] [aliceItem]]"
proof -
  have a: "Is (tagSelector ''h2'') [bareHeading]"
    by (simp add: bareHeading_def dom_defs example_defs)
  have b: "ChildrenFiltered (tagSelector ''a'') [bareHeading] = []"
    by (simp add: bareHeading_def dom_defs example_defs)
  from heading_without_anchor_registers_empty_name[OF a b, of initial "[elem ''ul'' [] [aliceItem]]"] a b
  show ?thesis by (simp add: initial_def)
qed

section \<open>List items that cannot be read\<close>

lemma total_count: "total (count content st) = total st + (if matchesAny content then 1 else 0)"
  by (simp add: total_def count_def matchesAny_def)

lemma checkUser_keeps:
  "checkUser st un = Inr st1 \<Longrightarrow>
     total st1 = total st \<and> headerContentDict st1 = headerContentDict st \<and>
     headers st1 = headers st \<and> logged st1 = logged st"
  by (auto simp: checkUser_def total_def split: option.splits)


lemma processIssue_no_anchor:
  "issueNodeOf li = [] \<Longrightarrow> processIssue st li un ut = Inl (IndexOutOfRange 0 0)"
  by (simp add: processIssue_def)

lemma processIssue_no_title:
  "issueNodeOf li = n0 # ns \<Longrightarrow> firstTextNode (children n0) = None \<Longrightarrow>
   processIssue st li un ut = Inl NilDereference"
  by (simp add: processIssue_def)

lemmas item_defs = userAnchor_def noLinkItem_def noTextItem_def noAnchorItem_def
  noTitleItem_def listDoc_def



text \<open>
  C10. The callback panics on some list items that are not a bot's: with a nil
  dereference when the item has no text node among its children; with an index out
  of range at \<^verbatim>\<open>issueNode.Nodes[0]\<close> when the item has a text node, its user is accepted
  and no child of the item holds an anchor; with a nil dereference when the first
  such anchor has no text node among its children. The three example reports, each
  one list item under a heading, end in these panics.
\<close>

theorem item_extraction_panics:
  "(\<not> isBot (Text (userNodeOf li)) \<and> firstTextNode (children li) = None \<longrightarrow>
      processItem st li = Inl NilDereference) \<and>
   (\<not> isBot (Text (userNodeOf li)) \<and> firstTextNode (children li) = Some userText \<and>
    checkUser st (userNodeOf li) = Inr st1 \<and> issueNodeOf li = [] \<longrightarrow>
      processItem st li = Inl (IndexOutOfRange 0 0)) \<and>
   (\<not> isBot (Text (userNodeOf li)) \<and> firstTextNode (children li) = Some userText \<and>
    checkUser st (userNodeOf li) = Inr st1 \<and> issueNodeOf li = n0 # ns \<and>
    firstTextNode (children n0) = None \<longrightarrow>
      processItem st li = Inl NilDereference) \<and>
   extractReport (listDoc noTextItem) = Inl NilDereference \<and>
   extractReport (listDoc noAnchorItem) = Inl (IndexOutOfRange 0 0) \<and>
   extractReport (listDoc noTitleItem) = Inl NilDereference"
proof (intro conjI impI)
  assume "\<not> isBot (Text (userNodeOf li)) \<and> firstTextNode (children li) = None"
  then show "processItem st li = Inl NilDereference"
    by (simp add: processItem_other)
next
  assume "\<not> isBot (Text (userNodeOf li)) \<and> firstTextNode (children li) = Some userText \<and>
    checkUser st (userNodeOf li) = Inr st1 \<and> issueNodeOf li = []"
  then show "processItem st li = Inl (IndexOutOfRange 0 0)"
    by (simp add: processItem_other processIssue_no_anchor)
next
  assume "\<not> isBot (Text (userNodeOf li)) \<and> firstTextNode (children li) = Some userText \<and>
    checkUser st (userNodeOf li) = Inr st1 \<and> issueNodeOf li = n0 # ns \<and>
    firstTextNode (children n0) = None"
  then show "processItem st li = Inl NilDereference"
    by (simp add: processItem_other processIssue_no_title)
next
  show "extractReport (listDoc noTextItem) = Inl NilDereference"
    by (simp add: item_defs run_defs dom_defs example_defs Let_def)
next
  show "extractReport (listDoc noAnchorItem) = Inl (IndexOutOfRange 0 0)"
    by (simp add: item_defs run_defs dom_defs example_defs Let_def)
next
  show "extractReport (listDoc noTitleItem) = Inl NilDereference"
    by (simp add: item_defs run_defs dom_defs example_defs Let_def)
qed

theorem item_extraction_panics_witness:
  "\<not> isBot (Text (userNodeOf noTextItem)) \<and> firstTextNode (children noTextItem) = None \<and>
   processItem emptyState noTextItem = Inl NilDereference \<and>
   \<not> isBot (Text (userNodeOf noAnchorItem)) \<and>
   firstTextNode (children noAnchorItem) = Some (tx '' opened issue '') \<and>
   issueNodeOf noAnchorItem = [] \<and>
   processItem emptyState noAnchorItem = Inl (IndexOutOfRange 0 0) \<and>
   \<not> isBot (Text (userNodeOf noTitleItem)) \<and>
   firstTextNode (children noTitleItem) = Some (tx '' opened issue '') \<and>
   issueNodeOf noTitleItem =
     [elem ''a'' [(''href'', ''http://x'')] [elem ''code'' [] [tx ''Bug X'']]] \<and>
   firstTextNode (children (elem ''a'' [(''href'', ''http://x'')]
     [elem ''code'' [] [tx ''Bug X'']])) = None \<and>
   processItem emptyState noTitleItem = Inl NilDereference"
proof -
  let ?s1 = "emptyState\<lparr>userDict := [''@alice'' \<mapsto> ''https://github.com/alice'']\<rparr>"
  let ?a = "elem ''a'' [(''href'', ''http://x'')] [elem ''code'' [] [tx ''Bug X'']]"
  have bots: "\<not> isBot (Text (userNodeOf noTextItem))" "\<not> isBot (Text (userNodeOf noAnchorItem))"
    "\<not> isBot (Text (userNodeOf noTitleItem))"
    by (simp_all add: item_defs dom_defs example_defs isBot_def)
  have texts: "firstTextNode (children noTextItem) = None"
    "firstTextNode (children noAnchorItem) = Some (tx '' opened issue '')"
    "firstTextNode (children noTitleItem) = Some (tx '' opened issue '')"
    by (simp_all add: item_defs example_defs)
  have users: "checkUser emptyState (userNodeOf noAnchorItem) = Inr ?s1"
    "checkUser emptyState (userNodeOf noTitleItem) = Inr ?s1"
    by (simp_all add: checkUser_def item_defs dom_defs example_defs emptyState_def initial_def)
  have issues: "issueNodeOf noAnchorItem = []" "issueNodeOf noTitleItem = [?a]"
    by (simp_all add: item_defs dom_defs example_defs)
  have title: "firstTextNode (children ?a) = None"
    by (simp add: example_defs)
  from item_extraction_panics[where li = noTextItem and st = emptyState]
    item_extraction_panics[where li = noAnchorItem and st = emptyState
      and userText = "tx '' opened issue ''" and ?st1.0 = ?s1]
    item_extraction_panics[where li = noTitleItem and st = emptyState
      and userText = "tx '' opened issue ''" and ?st1.0 = ?s1 and ?n0.0 = ?a and ns = "[]"]
    bots texts users issues title
  show ?thesis by simp
qed

section \<open>Entries and the users they name\<close>

lemma entriesHaveUsers_initial: "entriesHaveUsers initial"
  by (simp add: entriesHaveUsers_def initial_def contents_def)

lemma entriesHaveUsers_logged:
  "entriesHaveUsers st \<Longrightarrow> entriesHaveUsers (st\<lparr>logged := l\<rparr>)"
  by (simp add: entriesHaveUsers_def contents_def)

lemma entriesHaveUsers_count:
  "entriesHaveUsers st \<Longrightarrow> entriesHaveUsers (count c st)"
  by (simp add: entriesHaveUsers_def)

lemma checkUser_Inl:
  "checkUser st un = Inl st' \<Longrightarrow>
   st' = st\<lparr>logged := logged st @ [''get href from user failed, text: '' @ Text un]\<rparr>"
  by (auto simp: checkUser_def split: option.splits)

lemma entriesHaveUsers_mono:
  assumes "entriesHaveUsers st" and "\<And>h. set (contents st' h) \<subseteq> set (contents st h)"
    and "\<And>u. userDict st u \<noteq> None \<Longrightarrow> userDict st' u \<noteq> None"
  shows "entriesHaveUsers st'"
  unfolding entriesHaveUsers_def
proof (intro allI ballI)
  fix h e
  assume "e \<in> set (contents st' h)"
  with assms(2) have "e \<in> set (contents st h)" by blast
  with assms(1) obtain u a t l where "e = entryLine u a t l" and "userDict st u \<noteq> None"
    unfolding entriesHaveUsers_def by blast
  with assms(3) show "\<exists>u a t l. e = entryLine u a t l \<and> userDict st' u \<noteq> None"
    by blast
qed

lemma checkUser_Inr:
  "checkUser st un = Inr st1 \<Longrightarrow>
   (userDict st (Text un) \<noteq> None \<and> st1 = st) \<or>
   (\<exists>l. userDict st (Text un) = None \<and> Attr ''href'' un = Some l \<and>
        st1 = st\<lparr>userDict := (userDict st)(Text un \<mapsto> l)\<rparr>)"
  by (auto simp: checkUser_def split: option.splits)

lemma checkUser_entriesHaveUsers:
  assumes "entriesHaveUsers st" and "checkUser st un = Inr st1"
  shows "entriesHaveUsers st1 \<and> userDict st1 (Text un) \<noteq> None"
  using checkUser_Inr[OF assms(2)]
proof
  assume "userDict st (Text un) \<noteq> None \<and> st1 = st"
  with assms(1) show ?thesis by simp
next
  assume "\<exists>l. userDict st (Text un) = None \<and> Attr ''href'' un = Some l \<and>
        st1 = st\<lparr>userDict := (userDict st)(Text un \<mapsto> l)\<rparr>"
  then obtain l where s1: "st1 = st\<lparr>userDict := (userDict st)(Text un \<mapsto> l)\<rparr>" by blast
  have "entriesHaveUsers st1"
    using assms(1)
  proof (rule entriesHaveUsers_mono)
    fix h show "set (contents st1 h) \<subseteq> set (contents st h)"
      by (simp add: s1 contents_def)
  next
    fix u assume "userDict st u \<noteq> None"
    then show "userDict st1 u \<noteq> None" by (simp add: s1)
  qed
  with s1 show ?thesis by simp
qed

lemma contents_appendContent:
  "appendContent st entry = Inr st' \<Longrightarrow>
   userDict st' = userDict st \<and>
   contents st' h =
     (if h = last (headers st) then contents st h @ [entry] else contents st h)"
  by (auto simp: appendContent_def contents_def split: if_splits)

lemma appendContent_entriesHaveUsers:
  assumes inv: "entriesHaveUsers st" and u: "userDict st u \<noteq> None"
    and step: "appendContent st (entryLine u a t l) = Inr st'"
  shows "entriesHaveUsers st'"
  unfolding entriesHaveUsers_def
proof (intro allI ballI)
  fix h e
  assume e: "e \<in> set (contents st' h)"
  note c = contents_appendContent[OF step, of h]
  show "\<exists>u a t l. e = entryLine u a t l \<and> userDict st' u \<noteq> None"
  proof (cases "e \<in> set (contents st h)")
    case True
    with inv obtain u' a' t' l' where "e = entryLine u' a' t' l'" "userDict st u' \<noteq> None"
      unfolding entriesHaveUsers_def by blast
    with c show ?thesis by auto
  next
    case False
    with e c have "e = entryLine u a t l" by (auto split: if_splits)
    with u c show ?thesis by auto
  qed
qed

lemma processIssue_entriesHaveUsers:
  assumes "entriesHaveUsers st" and "userDict st (Text un) \<noteq> None"
    and "processIssue st li un ut = Inr st'"
  shows "entriesHaveUsers st'"
proof -
  from assms(3) consider
      "st' = st\<lparr>logged := logged st @
               [''get href from issue failed, text: '' @ Text (issueNodeOf li)]\<rparr>"
    | t l where "appendContent st (entryLine (Text un) (data ut) t l) = Inr st'"
    by (auto simp: processIssue_def Let_def split: list.splits option.splits)
  then show ?thesis
  proof cases
    case 1
    with assms(1) show ?thesis by (simp add: entriesHaveUsers_logged)
  next
    case 2
    with assms(1,2) show ?thesis by (rule appendContent_entriesHaveUsers)
  qed
qed

lemma processItem_entriesHaveUsers:
  assumes inv: "entriesHaveUsers st" and step: "processItem st li = Inr st'"
  shows "entriesHaveUsers st'"
proof (cases "isBot (Text (userNodeOf li))")
  case True
  with assms show ?thesis by (simp add: processItem_bot)
next
  case False
  note run = step[unfolded processItem_other[OF False]]
  from run obtain ut where ut: "firstTextNode (children li) = Some ut"
    by (auto split: option.splits)
  show ?thesis
  proof (cases "checkUser st (userNodeOf li)")
    case (Inl s1)
    with run ut have "st' = s1" by simp
    with checkUser_Inl[OF Inl] inv show ?thesis
      by (simp add: entriesHaveUsers_logged)
  next
    case (Inr s1)
    with run ut have p: "processIssue (count (data ut) s1) li (userNodeOf li) ut = Inr st'"
      by simp
    from checkUser_entriesHaveUsers[OF inv Inr]
    have "entriesHaveUsers (count (data ut) s1)"
      and "userDict (count (data ut) s1) (Text (userNodeOf li)) \<noteq> None"
      by (simp_all add: entriesHaveUsers_count)
    then show ?thesis using p by (rule processIssue_entriesHaveUsers)
  qed
qed

lemma processChild_entriesHaveUsers:
  assumes inv: "entriesHaveUsers st" and step: "processChild st s = Inr st'"
  shows "entriesHaveUsers st'"
proof (cases "Is (tagSelector ''h2'') [s]")
  case True
  with step have s': "st' = st\<lparr>headers := headers st @ [headerOf s],
             headerContentDict := (headerContentDict st)(headerOf s \<mapsto> [])\<rparr>"
    by (simp add: processChild_h2)
  show ?thesis
    using inv
  proof (rule entriesHaveUsers_mono)
    fix h show "set (contents st' h) \<subseteq> set (contents st h)"
      by (simp add: s' contents_def)
  next
    fix u assume "userDict st u \<noteq> None"
    then show "userDict st' u \<noteq> None" by (simp add: s')
  qed
next
  case False
  show ?thesis
  proof (cases "Is (tagSelector ''ul'') [s]")
    case True
    with False step
    have "Each processItem st (ChildrenFiltered (tagSelector ''li'') [s]) = Inr st'"
      by (simp add: processChild_ul)
    with inv show ?thesis
      using Each_invariant[where P = entriesHaveUsers and f = processItem]
        processItem_entriesHaveUsers
      by blast
  next
    case notul: False
    with False step inv show ?thesis by (simp add: processChild_other)
  qed
qed

lemma extractReport_entriesHaveUsers:
  assumes "extractReport doc = Inr st"
  shows "entriesHaveUsers st"
  using assms entriesHaveUsers_initial
    Each_invariant[where P = entriesHaveUsers and f = processChild]
    processChild_entriesHaveUsers
  unfolding extractReport_def by blast

lemma rangeOver_member:
  "rangeOver m kvs \<Longrightarrow> m u = Some url \<Longrightarrow> (u, url) \<in> set kvs"
  by (auto simp: rangeOver_def dest: map_of_SomeD)

lemma dash_lines:
  assumes "c = ''- '' @ r"
  shows "c \<noteq> weeklyStats st" "c \<noteq> nl" "c \<noteq> headingLine h" "c \<noteq> userLine u l"
  using assms by (simp_all add: weeklyStats_def nl_def headingLine_def userLine_def)

text \<open>
  C7. After a run that completes, every entry of every entry list was formatted as
  \<^verbatim>\<open>[handle]action[title](link)\<close> for a handle that is a key of \<^verbatim>\<open>userDict\<close>. So for
  every order in which the last loop meets the users, every line of the output that
  starts with \<^verbatim>\<open>"- "\<close> is the line of such an entry, and the output also has the line
  \<^verbatim>\<open>[handle]: link\<close> of that handle.
\<close>

theorem entry_handles_have_reference_lines:
  assumes "extractReport doc = Inr st" and "rangeOver (userDict st) kvs"
  shows "(\<forall>h. \<forall>e \<in> set (contents st h).
            \<exists>u a t l. e = entryLine u a t l \<and> u \<in> dom (userDict st)) \<and>
         (\<forall>c \<in> set (writeReport st kvs). \<forall>r. c = ''- '' @ r \<longrightarrow>
            (\<exists>u a t l url. c = contentLine (entryLine u a t l) \<and>
               userDict st u = Some url \<and>
               userLine u url \<in> set (writeReport st kvs)))"
proof (intro conjI ballI allI impI)
  fix h e
  assume "e \<in> set (contents st h)"
  with extractReport_entriesHaveUsers[OF assms(1)]
  show "\<exists>u a t l. e = entryLine u a t l \<and> u \<in> dom (userDict st)"
    unfolding entriesHaveUsers_def by blast
next
  fix c r
  assume c: "c \<in> set (writeReport st kvs)" and d: "c = ''- '' @ r"
  from c consider "c = weeklyStats st" | "c = nl"
    | h where "c = headingLine h"
    | h e where "e \<in> set (contents st h)" "c = contentLine e"
    | u l where "c = userLine u l"
    unfolding set_writeReport by auto
  then show "\<exists>u a t l url. c = contentLine (entryLine u a t l) \<and>
               userDict st u = Some url \<and>
               userLine u url \<in> set (writeReport st kvs)"
  proof cases
    case 4
    with extractReport_entriesHaveUsers[OF assms(1)]
    obtain u a t l url where e: "e = entryLine u a t l" and u: "userDict st u = Some url"
      unfolding entriesHaveUsers_def by blast
    from rangeOver_member[OF assms(2) u]
    have "userLine u url \<in> set (writeReport st kvs)"
      unfolding set_writeReport by force
    with 4 e u show ?thesis by blast
  next
    case 1
    with dash_lines(1)[OF d, of st] show ?thesis by blast
  next
    case 2
    with dash_lines(2)[OF d] show ?thesis by blast
  next
    case 3
    with dash_lines(3)[OF d, of h] show ?thesis by blast
  next
    case 5
    with dash_lines(4)[OF d, of u l] show ?thesis by blast
  qed
qed

theorem entry_handles_have_reference_lines_witness:
  "extractReport dupDoc = Inr dupState \<and> rangeOver (userDict dupState) dupUsers \<and>
   ''- [@bob] merged pull request [Fix Y](http://y)'' @ nl \<in> set (writeReport dupState dupUsers) \<and>
   (\<exists>u a t l url.
      ''- [@bob] merged pull request [Fix Y](http://y)'' @ nl = contentLine (entryLine u a t l) \<and>
      userDict dupState u = Some url \<and>
      userLine u url \<in> set (writeReport dupState dupUsers))"
proof -
  have r: "rangeOver (userDict dupState) dupUsers"
    by (simp add: rangeOver_def dupState_def dupUsers_def)
  have m: "''- [@bob] merged pull request [Fix Y](http://y)'' @ nl
             \<in> set (writeReport dupState dupUsers)"
    by (simp add: writeReport_dupState dupOutput_def)
  from entry_handles_have_reference_lines[OF extractReport_dupDoc r] m
  have "\<exists>u a t l url.
      ''- [@bob] merged pull request [Fix Y](http://y)'' @ nl = contentLine (entryLine u a t l) \<and>
      userDict dupState u = Some url \<and>
      userLine u url \<in> set (writeReport dupState dupUsers)"
    by auto
  with extractReport_dupDoc r m show ?thesis by simp
qed

section \<open>A list before any heading\<close>

lemma checkUser_total:
  "Attr ''href'' un \<noteq> None \<Longrightarrow> \<exists>st1. checkUser st un = Inr st1"
  by (auto simp: checkUser_def split: option.splits)











section \<open>The counters\<close>

lemma processIssue_total:
  "processIssue st li un ut = Inr st' \<Longrightarrow> total st' = total st"
  by (auto simp: processIssue_def appendContent_def total_def Let_def
      split: list.splits option.splits if_splits)

lemma processIssue_completes:
  assumes "headers st \<noteq> []" and "hasIssueTitle li"
  shows "\<exists>st'. processIssue st li un ut = Inr st'"
  using assms
  by (auto simp: processIssue_def hasIssueTitle_def appendContent_def Let_def
      split: list.splits option.splits)

lemma processItem_wellFormed:
  assumes "isBot (Text (userNodeOf li)) \<or> (headers st \<noteq> [] \<and> wellFormedItem li)"
  shows "\<exists>st'. processItem st li = Inr st' \<and> headers st' = headers st \<and>
           total st' = total st + (if counted li then 1 else 0)"
proof (cases "isBot (Text (userNodeOf li))")
  case True
  then show ?thesis by (simp add: processItem_bot counted_def)
next
  case False
  with assms have h: "headers st \<noteq> []" and w: "wellFormedItem li" by simp_all
  from w obtain ut where ut: "firstTextNode (children li) = Some ut"
    by (auto simp: wellFormedItem_def)
  from w checkUser_total obtain s1 where c: "checkUser st (userNodeOf li) = Inr s1"
    unfolding wellFormedItem_def by blast
  from h c have "headers (count (data ut) s1) \<noteq> []"
    by (simp add: checkUser_headers)
  with w processIssue_completes obtain st'
    where p: "processIssue (count (data ut) s1) li (userNodeOf li) ut = Inr st'"
    unfolding wellFormedItem_def by blast
  have run: "processItem st li = Inr st'"
    using False ut c p by (simp add: processItem_other)
  have "total st' = total (count (data ut) s1)"
    using p by (rule processIssue_total)
  also have "\<dots> = total st + (if matchesAny (data ut) then 1 else 0)"
    using checkUser_keeps[OF c] by (simp add: total_count)
  also have "\<dots> = total st + (if counted li then 1 else 0)"
    using False ut by (simp add: counted_def)
  finally show ?thesis
    using run processItem_headers[OF run] by simp
qed

lemma Each_processItem_wellFormed:
  assumes "\<forall>li \<in> set items.
             isBot (Text (userNodeOf li)) \<or> (headers st \<noteq> [] \<and> wellFormedItem li)"
  shows "\<exists>st'. Each processItem st items = Inr st' \<and> headers st' = headers st \<and>
           total st' = total st + length (filter counted items)"
  using assms
proof (induction items arbitrary: st)
  case Nil
  then show ?case by simp
next
  case (Cons x xs)
  from Cons.prems processItem_wellFormed[of x st] obtain s1
    where s1: "processItem st x = Inr s1" "headers s1 = headers st"
      "total s1 = total st + (if counted x then 1 else 0)"
    by auto
  from Cons.prems s1(2)
  have "\<forall>li \<in> set xs.
          isBot (Text (userNodeOf li)) \<or> (headers s1 \<noteq> [] \<and> wellFormedItem li)"
    by simp
  from Cons.IH[OF this] obtain st'
    where "Each processItem s1 xs = Inr st'" "headers st' = headers s1"
      "total st' = total s1 + length (filter counted xs)"
    by blast
  with s1 show ?case by simp
qed

lemma itemsOf_Cons:
  "itemsOf (s # ss) =
     (if isList s then ChildrenFiltered (tagSelector ''li'') [s] else []) @ itemsOf ss"
  by (simp add: itemsOf_def)

lemma Each_processChild_wellFormed:
  assumes "wellFormedChildren seen cs" and "seen \<longrightarrow> headers st \<noteq> []"
  shows "\<exists>st'. Each processChild st cs = Inr st' \<and>
           total st' = total st + length (filter counted (itemsOf cs))"
  using assms
proof (induction cs arbitrary: seen st)
  case Nil
  then show ?case by (simp add: itemsOf_def)
next
  case (Cons s ss)
  show ?case
  proof (cases "Is (tagSelector ''h2'') [s]")
    case True
    let ?s1 = "st\<lparr>headers := headers st @ [headerOf s],
                 headerContentDict := (headerContentDict st)(headerOf s \<mapsto> [])\<rparr>"
    from True Cons.prems have "wellFormedChildren True ss" by simp
    moreover have "True \<longrightarrow> headers ?s1 \<noteq> []" by simp
    ultimately obtain st' where "Each processChild ?s1 ss = Inr st'"
      "total st' = total ?s1 + length (filter counted (itemsOf ss))"
      using Cons.IH by blast
    with True show ?thesis
      by (simp add: processChild_h2 itemsOf_Cons isList_def total_def)
  next
    case False
    show ?thesis
    proof (cases "Is (tagSelector ''ul'') [s]")
      case True
      let ?items = "ChildrenFiltered (tagSelector ''li'') [s]"
      from True False Cons.prems
      have items: "\<forall>li \<in> set ?items.
             isBot (Text (userNodeOf li)) \<or> (headers st \<noteq> [] \<and> wellFormedItem li)"
        and rest: "wellFormedChildren seen ss"
        by (auto simp: list_all_iff)
      from Each_processItem_wellFormed[OF items] obtain s1
        where s1: "Each processItem st ?items = Inr s1" "headers s1 = headers st"
          "total s1 = total st + length (filter counted ?items)"
        by blast
      from Cons.prems(2) s1(2) have "seen \<longrightarrow> headers s1 \<noteq> []" by simp
      from Cons.IH[OF rest this] obtain st' where "Each processChild s1 ss = Inr st'"
        "total st' = total s1 + length (filter counted (itemsOf ss))"
        by blast
      with True False s1 show ?thesis
        by (simp add: processChild_ul itemsOf_Cons isList_def)
    next
      case notul: False
      from notul False Cons.prems have "wellFormedChildren seen ss" by simp
      from Cons.IH[OF this Cons.prems(2)] notul False show ?thesis
        by (simp add: processChild_other itemsOf_Cons isList_def)
    qed
  qed
qed

lemma reportChildren_mixedDoc:
  "reportChildren mixedDoc =
     [heading ''go-storage'', elem ''ul'' [] [botItem, aliceItem, noLinkItem, carolItem],
      elem ''p'' [] [tx ''and''], heading ''go-service-fs'', elem ''ul'' [] [bobItem]]"
  by (simp add: mixedDoc_def reportChildren_def dom_defs example_defs item_defs
      carolItem_def bobItem_def)

lemmas mixed_defs = heading_def elem_def tx_def item_def botItem_def aliceItem_def bobItem_def
  carolItem_def userAnchor_def noLinkItem_def

lemma itemsOf_mixedDoc:
  "itemsOf (reportChildren mixedDoc) = [botItem, aliceItem, noLinkItem, carolItem, bobItem]"
  unfolding reportChildren_mixedDoc
  by (simp add: itemsOf_def isList_def dom_defs mixed_defs)

lemma counted_examples:
  "\<not> counted botItem" "counted aliceItem" "counted noLinkItem" "\<not> counted carolItem"
  "counted bobItem"
  by (simp_all add: counted_def matchesAny_def isBot_def dom_defs mixed_defs
      regOpenPR_def regClosePR_def regOpenIssue_def regCloseIssue_def)

lemma wellFormedItem_examples:
  "wellFormedItem aliceItem" "wellFormedItem noLinkItem" "wellFormedItem carolItem"
  "wellFormedItem bobItem" "isBot (Text (userNodeOf botItem))"
  by (simp_all add: wellFormedItem_def hasIssueTitle_def isBot_def dom_defs mixed_defs)

lemma kinds_mixedDoc:
  "Is (tagSelector ''h2'') [heading n]"
  "\<not> Is (tagSelector ''h2'') [elem ''ul'' [] items]"
  "Is (tagSelector ''ul'') [elem ''ul'' [] items]"
  "\<not> Is (tagSelector ''h2'') [elem ''p'' [] cs]"
  "\<not> Is (tagSelector ''ul'') [elem ''p'' [] cs]"
  by (simp_all add: Is_def tagSelector_def heading_def elem_def)

lemma items_of_list:
  "ChildrenFiltered (tagSelector ''li'') [elem ''ul'' [] [botItem, aliceItem, noLinkItem, carolItem]] =
     [botItem, aliceItem, noLinkItem, carolItem]"
  "ChildrenFiltered (tagSelector ''li'') [elem ''ul'' [] [bobItem]] = [bobItem]"
  by (simp_all add: dom_defs mixed_defs)

lemma wellFormed_mixedDoc: "wellFormed mixedDoc"
  unfolding wellFormed_def reportChildren_mixedDoc
  by (simp add: kinds_mixedDoc items_of_list wellFormedItem_examples)

text \<open>
  C4. The extraction of a well-formed report completes, and in the state it ends in
  the sum of the four counters is the number of list items that are not a bot's and
  whose action text matches at least one of the four patterns.
\<close>

theorem counters_sum_counts_matching_items:
  assumes "wellFormed doc"
  shows "\<exists>st. extractReport doc = Inr st \<and>
           issueOpen st + issueClose st + prOpen st + prClose st =
             length (filter counted (itemsOf (reportChildren doc)))"
proof -
  have "False \<longrightarrow> headers initial \<noteq> []" by simp
  from Each_processChild_wellFormed[OF assms[unfolded wellFormed_def] this]
  show ?thesis
    by (simp add: extractReport_def total_def initial_def)
qed

theorem counters_sum_counts_matching_items_witness:
  "wellFormed mixedDoc \<and>
   length (filter counted (itemsOf (reportChildren mixedDoc))) = 3 \<and>
   (\<exists>st. extractReport mixedDoc = Inr st \<and>
      issueOpen st + issueClose st + prOpen st + prClose st = 3)"
proof -
  have n: "length (filter counted (itemsOf (reportChildren mixedDoc))) = 3"
    by (simp add: itemsOf_mixedDoc counted_examples)
  from counters_sum_counts_matching_items[OF wellFormed_mixedDoc] n wellFormed_mixedDoc
  show ?thesis by simp
qed

end
